theory Spec2Isabelle
  imports Main "HOL-Library.Word"
begin

section \<open>The declarations of core.h\<close>

subsection \<open>Constants\<close>

definition MAXRINGS :: nat where
  "MAXRINGS = 8"

definition MAXFLAGS :: nat where
  "MAXFLAGS = 16"

definition NCCL_MEM_PAD_ALIGN :: nat where
  "NCCL_MEM_PAD_ALIGN = 4096"

text \<open>
  \<^verbatim>\<open>#define DEFAULT_BUFFER_SIZE_BYTES (1UL << 25)\<close>: a shift of the unsigned long 1,
  64 bits wide on the platforms the library is built for.
\<close>

definition DEFAULT_BUFFER_SIZE_BYTES :: "64 word" where
  "DEFAULT_BUFFER_SIZE_BYTES = push_bit 25 1"

subsection \<open>C types and their layout\<close>

text \<open>
  The structs of core.h are kept as declarations: a type is a scalar, an array, a struct or
  a union, and a member with the empty name is an anonymous struct or union, whose members
  are named as members of the enclosing type. \<^verbatim>\<open>cudaStream_t\<close> and \<^verbatim>\<open>cudaEvent_t\<close> are
  the handle types of the CUDA runtime.
\<close>

datatype scalar = char_t | int_t | ptr_t | size_t | enum_t | cudaStream_t | cudaEvent_t

datatype ctype =
    Scalar scalar
  | CArray ctype nat
  | CStruct "(string \<times> ctype) list"
  | CUnion "(string \<times> ctype) list"

text \<open>
  What the compiler's ABI fixes: the size and the alignment of each scalar type. The layout
  rules are those of C: a member of a struct starts at the next multiple of its alignment,
  all members of a union start at offset 0, the alignment of an aggregate is the largest
  alignment of its members, and its size is rounded up to its alignment.
\<close>

record abi =
  scalar_size :: "scalar \<Rightarrow> nat"
  scalar_align :: "scalar \<Rightarrow> nat"

definition round_up :: "nat \<Rightarrow> nat \<Rightarrow> nat" where
  "round_up n a = ((n + a - 1) div a) * a"

fun alignof :: "abi \<Rightarrow> ctype \<Rightarrow> nat" where
  "alignof abi (Scalar s) = scalar_align abi s"
| "alignof abi (CArray t n) = alignof abi t"
| "alignof abi (CStruct fs) = foldr max (map (\<lambda>f. alignof abi (snd f)) fs) 1"
| "alignof abi (CUnion fs) = foldr max (map (\<lambda>f. alignof abi (snd f)) fs) 1"

fun struct_offsets :: "nat \<Rightarrow> (nat \<times> nat) list \<Rightarrow> nat list" where
  "struct_offsets off [] = []"
| "struct_offsets off ((sz, al) # ms) = round_up off al # struct_offsets (round_up off al + sz) ms"

fun struct_end :: "nat \<Rightarrow> (nat \<times> nat) list \<Rightarrow> nat" where
  "struct_end off [] = off"
| "struct_end off ((sz, al) # ms) = struct_end (round_up off al + sz) ms"

fun sizeof :: "abi \<Rightarrow> ctype \<Rightarrow> nat" where
  "sizeof abi (Scalar s) = scalar_size abi s"
| "sizeof abi (CArray t n) = n * sizeof abi t"
| "sizeof abi (CStruct fs) =
     round_up (struct_end 0 (map (\<lambda>f. (sizeof abi (snd f), alignof abi (snd f))) fs))
       (alignof abi (CStruct fs))"
| "sizeof abi (CUnion fs) =
     round_up (foldr max (map (\<lambda>f. sizeof abi (snd f)) fs) 0) (alignof abi (CUnion fs))"

definition field_offsets :: "abi \<Rightarrow> ctype \<Rightarrow> nat list" where
  "field_offsets abi t =
     (case t of
        CStruct fs \<Rightarrow> struct_offsets 0 (map (\<lambda>f. (sizeof abi (snd f), alignof abi (snd f))) fs)
      | CUnion fs \<Rightarrow> map (\<lambda>f. 0) fs
      | _ \<Rightarrow> [])"

function members :: "abi \<Rightarrow> ctype \<Rightarrow> (string \<times> nat \<times> ctype) list" where
  "members abi (Scalar s) = []"
| "members abi (CArray t n) = []"
| "members abi (CStruct fs) =
     concat (map (\<lambda>(f, off). if fst f = [] then map (\<lambda>(n, p, u). (n, off + p, u)) (members abi (snd f))
                               else [(fst f, off, snd f)])
                 (zip fs (field_offsets abi (CStruct fs))))"
| "members abi (CUnion fs) =
     concat (map (\<lambda>(f, off). if fst f = [] then map (\<lambda>(n, p, u). (n, off + p, u)) (members abi (snd f))
                               else [(fst f, off, snd f)])
                 (zip fs (field_offsets abi (CUnion fs))))"
  by pat_completeness auto
termination
proof (relation "measure (\<lambda>(abi, t). size t)")
  show "wf (measure (\<lambda>(abi, t). size t))" by simp
next
  fix abi fs x f off
  assume "x \<in> set (zip fs (field_offsets abi (CStruct fs)))" "(f, off) = x" "fst f = []"
  then have "f \<in> set fs" by (auto dest: set_zip_leftD)
  then have "size (snd f) < size (CStruct fs)"
    by (induction fs) (auto simp: less_Suc_eq_le)
  then show "((abi, snd f), abi, CStruct fs) \<in> measure (\<lambda>(abi, t). size t)" by simp
next
  fix abi fs x f off
  assume "x \<in> set (zip fs (field_offsets abi (CUnion fs)))" "(f, off) = x" "fst f = []"
  then have "f \<in> set fs" by (auto dest: set_zip_leftD)
  then have "size (snd f) < size (CUnion fs)"
    by (induction fs) (auto simp: less_Suc_eq_le)
  then show "((abi, snd f), abi, CUnion fs) \<in> measure (\<lambda>(abi, t). size t)" by simp
qed

definition offsetof :: "abi \<Rightarrow> ctype \<Rightarrow> string \<Rightarrow> nat option" where
  "offsetof abi t name = map_option fst (map_of (members abi t) name)"

definition member_end :: "abi \<Rightarrow> ctype \<Rightarrow> string \<Rightarrow> nat option" where
  "member_end abi t name =
     (case map_of (members abi t) name of
        None \<Rightarrow> None
      | Some (off, u) \<Rightarrow> Some (off + sizeof abi u))"

definition natural_alignments :: "nat set" where
  "natural_alignments = {1, 2, 4, 8, 16}"

fun declared_fields :: "ctype \<Rightarrow> (string \<times> ctype) list" where
  "declared_fields (Scalar s) = []"
| "declared_fields (CArray t n) = []"
| "declared_fields (CStruct fs) =
     concat (map (\<lambda>f. if fst f = [] then declared_fields (snd f) else [f]) fs)"
| "declared_fields (CUnion fs) =
     concat (map (\<lambda>f. if fst f = [] then declared_fields (snd f) else [f]) fs)"

definition array_length :: "ctype \<Rightarrow> string \<Rightarrow> nat option" where
  "array_length t name =
     (case map_of (declared_fields t) name of
        Some (CArray u n) \<Rightarrow> Some n
      | _ \<Rightarrow> None)"

definition has_slot :: "ctype \<Rightarrow> string \<Rightarrow> nat \<Rightarrow> bool" where
  "has_slot t name i = (case array_length t name of None \<Rightarrow> False | Some n \<Rightarrow> i < n)"

subsection \<open>The structs\<close>

text \<open>
  \<^verbatim>\<open>
  struct ncclMem {
    union { // Pad this block so that devBuff is correctly aligned
      struct {
        int   flags[MAXFLAGS];
        void* recvPtrs[MAXFLAGS];
        int   opCounter; // Used to determine when remote Communicators are ready.
                         // Only used in host memory.
      };
      char pad[NCCL_MEM_PAD_ALIGN];
    };
    // devBuff will likely be bigger ; we only use its offset/address.
    char buff[NCCL_MEM_PAD_ALIGN];
  };
  \<close>
\<close>

definition ncclMem_decl :: ctype where
  "ncclMem_decl =
     CStruct
       [('''', CUnion
          [('''', CStruct
             [(''flags'', CArray (Scalar int_t) MAXFLAGS),
              (''recvPtrs'', CArray (Scalar ptr_t) MAXFLAGS),
              (''opCounter'', Scalar int_t)]),
           (''pad'', CArray (Scalar char_t) NCCL_MEM_PAD_ALIGN)]),
        (''buff'', CArray (Scalar char_t) NCCL_MEM_PAD_ALIGN)]"

definition ncclNodeRef_decl :: ctype where
  "ncclNodeRef_decl =
     CStruct
       [(''remote'', Scalar ptr_t),
        (''local'', Scalar ptr_t),
        (''type'', Scalar enum_t),
        (''devCleanup'', Scalar ptr_t),
        (''hostCleanup'', Scalar ptr_t),
        (''opCounter'', Scalar ptr_t)]"

definition ncclComm_decl :: ctype where
  "ncclComm_decl =
     CStruct
       [(''nDev'', Scalar int_t),
        (''cudaDev'', Scalar int_t),
        (''nRings'', Scalar int_t),
        (''ringIdx'', CArray (Scalar int_t) MAXRINGS),
        (''devMem'', Scalar ptr_t),
        (''hostMem'', Scalar ptr_t),
        (''hostMemState'', Scalar int_t),
        (''opSched'', Scalar int_t),
        (''opCounter'', Scalar ptr_t),
        (''prevStream'', Scalar cudaStream_t),
        (''doneEvent'', Scalar cudaEvent_t),
        (''userFromRing'', CArray (Scalar ptr_t) MAXRINGS),
        (''devUserFromRing'', CArray (Scalar ptr_t) MAXRINGS),
        (''ringFromUser'', CArray (Scalar ptr_t) MAXRINGS),
        (''ncclFromRing'', CArray (Scalar ptr_t) MAXRINGS),
        (''buffSize'', Scalar size_t),
        (''useRemoteRecv'', Scalar int_t),
        (''ptrs'', CArray ncclNodeRef_decl 1)]"

text \<open>A header member lies within the padding when it ends at or before the boundary.\<close>

definition within_pad :: "abi \<Rightarrow> string \<Rightarrow> bool" where
  "within_pad abi name =
     (case member_end abi ncclMem_decl name of
        None \<Rightarrow> False
      | Some e \<Rightarrow> e \<le> NCCL_MEM_PAD_ALIGN)"

text \<open>
  The ABI of 64-bit Linux (LP64), and the alignments a C compiler gives a scalar: a power
  of two up to 16 bytes (1 when the struct is packed).
\<close>

fun lp64_size :: "scalar \<Rightarrow> nat" where
  "lp64_size char_t = 1"
| "lp64_size int_t = 4"
| "lp64_size enum_t = 4"
| "lp64_size ptr_t = 8"
| "lp64_size size_t = 8"
| "lp64_size cudaStream_t = 8"
| "lp64_size cudaEvent_t = 8"

definition lp64 :: abi where
  "lp64 = \<lparr>scalar_size = lp64_size, scalar_align = lp64_size\<rparr>"

subsection \<open>Diagnostics: the debug level and the WARN and INFO macros\<close>

text \<open>
  \<^verbatim>\<open>typedef enum {NONE=0, WARN=1, INFO=2, ABORT=3} DebugLevel;\<close>
  The macros compare levels with \<^verbatim>\<open>>=\<close>, that is, by the enumerators' integer
  values.
\<close>

datatype DebugLevel = NONE | WARN | INFO | ABORT

fun DebugLevel_value :: "DebugLevel \<Rightarrow> int" where
  "DebugLevel_value NONE = 0"
| "DebugLevel_value WARN = 1"
| "DebugLevel_value INFO = 2"
| "DebugLevel_value ABORT = 3"

definition level_ge :: "DebugLevel \<Rightarrow> DebugLevel \<Rightarrow> bool" where
  "level_ge a b = (DebugLevel_value a \<ge> DebugLevel_value b)"

text \<open>
  A macro expands to a sequence of calls of the C library. The model of a macro is the
  sequence of calls it makes, in order: each \<^verbatim>\<open>printf\<close> with its format string and
  arguments, \<^verbatim>\<open>fflush(stdout)\<close>, and \<^verbatim>\<open>abort()\<close>, which does not return.
\<close>

datatype printf_arg = Str string | Num int

datatype libc_call = Printf string "printf_arg list" | Fflush_stdout | Abort

text \<open>
  \<^verbatim>\<open>
  #define WARN(...) do {
    if (ncclDebugLevel >= WARN) {
      printf("WARN %s:%d ", __FILE__, __LINE__);
      printf(__VA_ARGS__);
      printf("\n");
      fflush(stdout);
      if (ncclDebugLevel >= ABORT) abort();
    }
  } while(0)
  \<close>
\<close>

definition WARN_macro ::
  "DebugLevel \<Rightarrow> string \<Rightarrow> int \<Rightarrow> string \<Rightarrow> printf_arg list \<Rightarrow> libc_call list" where
  "WARN_macro ncclDebugLevel file line fmt args =
     (if level_ge ncclDebugLevel WARN then
        [Printf ''WARN %s:%d '' [Str file, Num line],
         Printf fmt args,
         Printf [CHR 0x0A] [],
         Fflush_stdout]
        @ (if level_ge ncclDebugLevel ABORT then [Abort] else [])
      else [])"

text \<open>
  \<^verbatim>\<open>
  #define INFO(...) do {
    if (ncclDebugLevel >= INFO) {
      printf("INFO "); printf(__VA_ARGS__); printf("\n");
      fflush(stdout);
    }
  } while(0)
  \<close>
\<close>

definition INFO_macro :: "DebugLevel \<Rightarrow> string \<Rightarrow> printf_arg list \<Rightarrow> libc_call list" where
  "INFO_macro ncclDebugLevel fmt args =
     (if level_ge ncclDebugLevel INFO then
        [Printf ''INFO '' [], Printf fmt args, Printf [CHR 0x0A] [], Fflush_stdout]
      else [])"

text \<open>
  What reaches stdout: the printf calls made, in order, up to a call of \<^verbatim>\<open>abort\<close>, after
  which the process makes no call. A message is emitted when its printf is among them.
\<close>

fun printed :: "libc_call list \<Rightarrow> (string \<times> printf_arg list) list" where
  "printed [] = []"
| "printed (Printf fmt args # calls) = (fmt, args) # printed calls"
| "printed (Fflush_stdout # calls) = printed calls"
| "printed (Abort # calls) = []"

definition emitted :: "libc_call list \<Rightarrow> string \<Rightarrow> printf_arg list \<Rightarrow> bool" where
  "emitted calls fmt args = ((fmt, args) \<in> set (printed calls))"

definition terminates_process :: "libc_call list \<Rightarrow> bool" where
  "terminates_process calls = (Abort \<in> set calls)"

text \<open>
  Statement sequencing: the calls of the statements after a macro are made only when the
  macro has not called \<^verbatim>\<open>abort\<close>.
\<close>

definition followed_by :: "libc_call list \<Rightarrow> libc_call list \<Rightarrow> libc_call list" where
  "followed_by first rest = (if terminates_process first then first else first @ rest)"

section \<open>Ring index tables\<close>

text \<open>
  The tables live in \<^verbatim>\<open>struct ncclComm\<close>: \<^verbatim>\<open>userFromRing\<close> maps an internal index
  (a ring position) to the user's rank, \<^verbatim>\<open>devUserFromRing\<close> is its copy stored on the
  device, \<^verbatim>\<open>ringFromUser\<close> is its inverse and \<^verbatim>\<open>ncclFromRing\<close> is the ring order. Each
  is an array of \<^verbatim>\<open>nDev\<close> ints per ring; only the \<^verbatim>\<open>nRings\<close> active rings have one.
  core.h declares the tables and holds no function that fills them.
\<close>

record ring_index_tables =
  nDev :: nat
  nRings :: nat
  userFromRing :: "int list list"
  devUserFromRing :: "int list list"
  ringFromUser :: "int list list"
  ncclFromRing :: "int list list"

text \<open>The ways the construction refuses a rank assignment or a ring order.\<close>

datatype config_error =
    TooManyRings nat
  | RankCountMismatch nat
  | RankOutOfRange int
  | DuplicateRank int
  | BadRingOrder

text \<open>
  Modelled from the spec: the inversion of a table, which the table construction of
  spec section 4.3 needs for \<^verbatim>\<open>ringFromUser\<close> ("Inverse of userFromRing" in core.h) and
  which core.h does not contain. It walks the table once and writes position \<open>i\<close> into
  slot \<open>tab[i]\<close> of an array of \<open>ndev\<close> unset (-1) slots; a value outside \<open>[0, ndev)\<close> or
  a slot already written is the spec's "duplicate or out-of-range rank" and "fails
  configuration rather than producing a silently wrong table".
\<close>

fun fill_inverse :: "nat \<Rightarrow> int list \<Rightarrow> nat \<Rightarrow> int list \<Rightarrow> config_error + int list" where
  "fill_inverse ndev [] i tab = Inr tab"
| "fill_inverse ndev (u # us) i tab =
     (if u < 0 \<or> int ndev \<le> u then Inl (RankOutOfRange u)
      else if tab ! nat u \<noteq> - 1 then Inl (DuplicateRank u)
      else fill_inverse ndev us (Suc i) (tab[nat u := int i]))"

text \<open>Modelled from the spec: the inversion above, started on the empty array.\<close>

definition invert_table :: "nat \<Rightarrow> int list \<Rightarrow> config_error + int list" where
  "invert_table ndev tab = fill_inverse ndev tab 0 (replicate ndev (- 1))"

text \<open>
  Modelled from the spec: the tables of one ring (spec section 4.3), whose code core.h does not
  contain. The ring order lists the devices in the order the ring visits them
  and comes from the topology; position \<open>i\<close> of \<^verbatim>\<open>userFromRing\<close> is the user's rank of the
  device at ring position \<open>i\<close>, and \<^verbatim>\<open>ringFromUser\<close> is its inverse.
\<close>

definition build_ring :: "nat \<Rightarrow> int list \<Rightarrow> int list \<Rightarrow> config_error + int list \<times> int list" where
  "build_ring ndev ranks order =
     (if length order \<noteq> ndev \<or> list_ex (\<lambda>d. d < 0 \<or> int ndev \<le> d) order then Inl BadRingOrder
      else
        let users = map (\<lambda>d. ranks ! nat d) order in
        case invert_table ndev users of
          Inl e \<Rightarrow> Inl e
        | Inr tab \<Rightarrow> Inr (users, tab))"

text \<open>
  Modelled from the spec: the tables of all rings, one after the other; the device copy
  is a copy of \<^verbatim>\<open>userFromRing\<close>, as core.h says ("copy of the above stored on each
  device").
\<close>

fun build_rings :: "nat \<Rightarrow> int list \<Rightarrow> int list list \<Rightarrow> config_error + ring_index_tables" where
  "build_rings ndev ranks [] =
     Inr \<lparr>nDev = ndev, nRings = 0,
          userFromRing = [], devUserFromRing = [], ringFromUser = [], ncclFromRing = []\<rparr>"
| "build_rings ndev ranks (order # orders) =
     (case build_ring ndev ranks order of
        Inl e \<Rightarrow> Inl e
      | Inr (users, tab) \<Rightarrow>
          (case build_rings ndev ranks orders of
             Inl e \<Rightarrow> Inl e
           | Inr t \<Rightarrow>
               Inr \<lparr>nDev = ndev, nRings = Suc (nRings t),
                    userFromRing = users # userFromRing t,
                    devUserFromRing = users # devUserFromRing t,
                    ringFromUser = tab # ringFromUser t,
                    ncclFromRing = order # ncclFromRing t\<rparr>))"

text \<open>
  Modelled from the spec: the table construction of spec section 4.3, which core.h does not
  contain: "given the user's desired rank assignment ... compute the four permutation
  tables", for at most MAXRINGS rings ("bounded by a fixed maximum ring count"); the rank
  assignment is checked first.
\<close>

definition build_tables :: "nat \<Rightarrow> int list \<Rightarrow> int list list \<Rightarrow> config_error + ring_index_tables" where
  "build_tables ndev ranks orders =
     (if MAXRINGS < length orders then Inl (TooManyRings (length orders))
      else if length ranks \<noteq> ndev then Inl (RankCountMismatch (length ranks))
      else
        case invert_table ndev ranks of
          Inl e \<Rightarrow> Inl e
        | Inr tab \<Rightarrow> build_rings ndev ranks orders)"

text \<open>A table is a permutation of \<open>[0, ndev)\<close>.\<close>

definition is_permutation :: "nat \<Rightarrow> int list \<Rightarrow> bool" where
  "is_permutation ndev tab =
     (length tab = ndev \<and> distinct tab \<and> list_all (\<lambda>x. 0 \<le> x \<and> x < int ndev) tab)"

text \<open>The tables of all rings of a communicator.\<close>

definition all_tables :: "ring_index_tables \<Rightarrow> int list list" where
  "all_tables t = userFromRing t @ devUserFromRing t @ ringFromUser t @ ncclFromRing t"

section \<open>The synchronization block and the handshake\<close>

text \<open>
  The header of \<^verbatim>\<open>struct ncclMem\<close> as a value: the flags and the published pointers,
  one of each per step slot (an array of MAXFLAGS entries, read here as a function of the
  slot number that the operations only apply below MAXFLAGS), and the operation counter, a
  C int. An address is a number.
\<close>

type_synonym addr = nat

record ncclMem =
  flags :: "nat \<Rightarrow> int"
  recvPtrs :: "nat \<Rightarrow> addr"
  opCounter :: int

text \<open>
  Modelled from the spec: the two flag values. The spec names them only as the "ready" and
  the "drained" sentinel; core.h gives them no value.
\<close>

definition READY :: int where
  "READY = 1"

definition DRAINED :: int where
  "DRAINED = 0"

text \<open>The largest value of a 32-bit int, beyond which an increment is undefined in C.\<close>

definition INT_MAX :: int where
  "INT_MAX = 2 ^ 31 - 1"

text \<open>
  The reads and writes of a block's header. An operation of the handshake is the sequence
  of accesses it makes, in program order; its effect on the block is the effect of its
  writes, one after the other.
\<close>

datatype access =
    ReadOpCounter int
  | ReadFlag nat int
  | ReadRecvPtr nat addr
  | WriteRecvPtr nat addr
  | WriteFlag nat int
  | WriteOpCounter int

fun apply_access :: "ncclMem \<Rightarrow> access \<Rightarrow> ncclMem" where
  "apply_access b (WriteRecvPtr step ptr) = b\<lparr>recvPtrs := (recvPtrs b)(step := ptr)\<rparr>"
| "apply_access b (WriteFlag step v) = b\<lparr>flags := (flags b)(step := v)\<rparr>"
| "apply_access b (WriteOpCounter c) = b\<lparr>opCounter := c\<rparr>"
| "apply_access b (ReadOpCounter c) = b"
| "apply_access b (ReadFlag step v) = b"
| "apply_access b (ReadRecvPtr step ptr) = b"

text \<open>
  Modelled from the spec: \<open>publish(step, ptr)\<close> of spec section 4.1, whose code core.h does
  not contain: the "producer writes recvPtrs[step], then sets flags[step] to the
  ready sentinel". A step slot outside the arrays has no defined effect.
\<close>

definition publish_accesses :: "nat \<Rightarrow> addr \<Rightarrow> access list" where
  "publish_accesses step ptr = [WriteRecvPtr step ptr, WriteFlag step READY]"

definition publish :: "nat \<Rightarrow> addr \<Rightarrow> ncclMem \<Rightarrow> ncclMem option" where
  "publish step ptr b =
     (if step < MAXFLAGS then Some (foldl apply_access b (publish_accesses step ptr)) else None)"

text \<open>
  Modelled from the spec: \<open>tryConsume(step)\<close> of spec section 4.1 with the epoch gate,
  whose code core.h does not contain. The consumer "confirms the producer's opCounter
  \<ge> e" before it trusts any flag of epoch \<open>e\<close>; then it "polls flags[step]"; "once ready,
  it reads recvPtrs[step], performs its access, then resets flags[step] to the drained
  sentinel". One call is one poll: where the spec's consumer spins, the call answers
  \<open>NotReady\<close> and the caller calls again.
\<close>

datatype consume_result = Rejected | NotReady | Consumed addr

definition tryConsume_accesses :: "int \<Rightarrow> nat \<Rightarrow> ncclMem \<Rightarrow> consume_result \<times> access list" where
  "tryConsume_accesses epoch step b =
     (let c = opCounter b in
      if c < epoch then (Rejected, [ReadOpCounter c])
      else
        let f = flags b step in
        if f \<noteq> READY then (NotReady, [ReadOpCounter c, ReadFlag step f])
        else
          let p = recvPtrs b step in
          (Consumed p,
           [ReadOpCounter c, ReadFlag step f, ReadRecvPtr step p, WriteFlag step DRAINED]))"

definition tryConsume ::
  "int \<Rightarrow> nat \<Rightarrow> ncclMem \<Rightarrow> (consume_result \<times> access list \<times> ncclMem) option" where
  "tryConsume epoch step b =
     (if step < MAXFLAGS then
        let (res, tr) = tryConsume_accesses epoch step b
        in Some (res, tr, foldl apply_access b tr)
      else None)"

text \<open>
  Modelled from the spec: the advance of \<open>opCounter\<close>, "advanced once per completed
  collective operation"; core.h does not contain the code. The counter is a C int, so
  the advance has no defined result at INT_MAX.
\<close>

definition completeOp :: "ncclMem \<Rightarrow> ncclMem option" where
  "completeOp b =
     (if opCounter b < INT_MAX then Some (apply_access b (WriteOpCounter (opCounter b + 1)))
      else None)"

text \<open>A history of a block: the operations applied to it, in order.\<close>

datatype handshake_op = Publish nat addr | TryConsume int nat | CompleteCollective

fun step_op :: "handshake_op \<Rightarrow> ncclMem \<Rightarrow> ncclMem option" where
  "step_op (Publish step ptr) b = publish step ptr b"
| "step_op (TryConsume epoch step) b = map_option (\<lambda>(res, tr, b'). b') (tryConsume epoch step b)"
| "step_op CompleteCollective b = completeOp b"

fun run :: "handshake_op list \<Rightarrow> ncclMem \<Rightarrow> ncclMem option" where
  "run [] b = Some b"
| "run (x # xs) b = (case step_op x b of None \<Rightarrow> None | Some b' \<Rightarrow> run xs b')"

text \<open>
  An access sequence is gated for epoch \<open>e\<close> when every access to a flag or to a published
  pointer comes after a read of the counter that returned at least \<open>e\<close>.
\<close>

fun touches_slot :: "access \<Rightarrow> bool" where
  "touches_slot (ReadOpCounter c) = False"
| "touches_slot (WriteOpCounter c) = False"
| "touches_slot (ReadFlag step v) = True"
| "touches_slot (ReadRecvPtr step ptr) = True"
| "touches_slot (WriteRecvPtr step ptr) = True"
| "touches_slot (WriteFlag step v) = True"

fun gated :: "int \<Rightarrow> bool \<Rightarrow> access list \<Rightarrow> bool" where
  "gated epoch confirmed [] = True"
| "gated epoch confirmed (ReadOpCounter c # tr) = gated epoch (confirmed \<or> epoch \<le> c) tr"
| "gated epoch confirmed (a # tr) = ((touches_slot a \<longrightarrow> confirmed) \<and> gated epoch confirmed tr)"

text \<open>Two blocks to run the operations on.\<close>

definition idle_block :: ncclMem where
  "idle_block = \<lparr>flags = (\<lambda>k. DRAINED), recvPtrs = (\<lambda>k. 0), opCounter = 0\<rparr>"

definition stale_block :: ncclMem where
  "stale_block = \<lparr>flags = (\<lambda>k. if k = 3 then READY else DRAINED),
                   recvPtrs = (\<lambda>k. if k = 3 then 4096 else 0), opCounter = 1\<rparr>"

text \<open>
  Modelled from the spec: a producer and a consumer running in parallel on one block
  (spec sections 4.1 and 5); core.h does not contain their code. The producer makes the
  accesses of a publish, the consumer those of \<open>tryConsume\<close>, each "in program order",
  one access at a time, and the two are "unordered with respect to each other except
  through the handshake": a schedule says whose access comes next. A consumer that is
  rejected or finds the flag not ready polls again. Every access is recorded with the
  device that made it and the value it read or wrote, the latest first.
\<close>

datatype agent = Producer | Consumer

datatype consumer_pc = AtCounter | AtFlag | AtPointer | AtReset | Finished

record handshake_system =
  mem :: ncclMem
  producer_todo :: "access list"
  consumer_at :: consumer_pc
  observed :: "(agent \<times> access) list"

definition producer_step :: "handshake_system \<Rightarrow> handshake_system" where
  "producer_step s =
     (case producer_todo s of
        [] \<Rightarrow> s
      | a # rest \<Rightarrow>
          s\<lparr>mem := apply_access (mem s) a, producer_todo := rest,
            observed := (Producer, a) # observed s\<rparr>)"

definition consumer_step :: "int \<Rightarrow> nat \<Rightarrow> handshake_system \<Rightarrow> handshake_system" where
  "consumer_step epoch step s =
     (case consumer_at s of
        AtCounter \<Rightarrow>
          let c = opCounter (mem s) in
          s\<lparr>consumer_at := (if c < epoch then AtCounter else AtFlag),
            observed := (Consumer, ReadOpCounter c) # observed s\<rparr>
      | AtFlag \<Rightarrow>
          let f = flags (mem s) step in
          s\<lparr>consumer_at := (if f \<noteq> READY then AtCounter else AtPointer),
            observed := (Consumer, ReadFlag step f) # observed s\<rparr>
      | AtPointer \<Rightarrow>
          let p = recvPtrs (mem s) step in
          s\<lparr>consumer_at := AtReset,
            observed := (Consumer, ReadRecvPtr step p) # observed s\<rparr>
      | AtReset \<Rightarrow>
          s\<lparr>mem := apply_access (mem s) (WriteFlag step DRAINED), consumer_at := Finished,
            observed := (Consumer, WriteFlag step DRAINED) # observed s\<rparr>
      | Finished \<Rightarrow> s)"

fun system_step :: "int \<Rightarrow> nat \<Rightarrow> handshake_system \<Rightarrow> agent \<Rightarrow> handshake_system" where
  "system_step epoch step s Producer = producer_step s"
| "system_step epoch step s Consumer = consumer_step epoch step s"

definition interleave :: "int \<Rightarrow> nat \<Rightarrow> agent list \<Rightarrow> handshake_system \<Rightarrow> handshake_system" where
  "interleave epoch step schedule s = foldl (system_step epoch step) s schedule"

definition initial_system :: "ncclMem \<Rightarrow> access list \<Rightarrow> handshake_system" where
  "initial_system b todo =
     \<lparr>mem = b, producer_todo = todo, consumer_at = AtCounter, observed = []\<rparr>"

text \<open>
  What the record of a run must show: whenever the consumer has read the pointer of the
  slot, it read the published pointer, and it had read the slot's flag as ready before.
\<close>

fun pointer_after_ready :: "nat \<Rightarrow> addr \<Rightarrow> (agent \<times> access) list \<Rightarrow> bool" where
  "pointer_after_ready step ptr [] = True"
| "pointer_after_ready step ptr ((Consumer, ReadRecvPtr s p) # earlier) =
     (s = step \<and> p = ptr \<and> (Consumer, ReadFlag step READY) \<in> set earlier
      \<and> pointer_after_ready step ptr earlier)"
| "pointer_after_ready step ptr (e # earlier) = pointer_after_ready step ptr earlier"

text \<open>
  The invariant of the runs of one publish against one consumer: the flag is not ready
  while the producer has an access left, the pointer is in place once its write is made,
  and the consumer is past the flag only after it has read it as ready.
\<close>

definition handshake_inv :: "nat \<Rightarrow> addr \<Rightarrow> handshake_system \<Rightarrow> bool" where
  "handshake_inv step ptr s =
     ((producer_todo s = publish_accesses step ptr \<or> producer_todo s = [WriteFlag step READY]
        \<or> producer_todo s = [])
      \<and> (producer_todo s \<noteq> [] \<longrightarrow>
            flags (mem s) step \<noteq> READY \<and> (consumer_at s = AtCounter \<or> consumer_at s = AtFlag))
      \<and> (producer_todo s \<noteq> publish_accesses step ptr \<longrightarrow> recvPtrs (mem s) step = ptr)
      \<and> (consumer_at s \<noteq> AtCounter \<and> consumer_at s \<noteq> AtFlag \<longrightarrow>
            (Consumer, ReadFlag step READY) \<in> set (observed s))
      \<and> pointer_after_ready step ptr (observed s))"

text \<open>A schedule in which the consumer polls once too early and once in time.\<close>

definition handshake_schedule :: "agent list" where
  "handshake_schedule =
     [Producer, Consumer, Consumer, Producer, Consumer, Consumer, Consumer, Consumer]"

section \<open>Layout of the synchronization block\<close>

lemma round_up_1: "round_up n (Suc 0) = n"
  by (simp add: round_up_def)

lemma round_up_0: "round_up 0 a = 0"
  by (cases "a = 0") (simp_all add: round_up_def)

lemma round_up_le: "0 < a \<Longrightarrow> round_up n a \<le> n + a - 1"
  by (simp add: round_up_def)

lemma round_up_dvd: "0 < a \<Longrightarrow> a dvd n \<Longrightarrow> round_up n a = n"
proof -
  assume a: "0 < a" and d: "a dvd n"
  then obtain k where k: "n = a * k" by (auto simp: dvd_def)
  have "(a * k + a - 1) div a = k"
    using a by (intro div_nat_eqI) simp_all
  then show ?thesis by (simp add: round_up_def k mult.commute)
qed

lemma natural_alignment_facts:
  assumes "a \<in> natural_alignments"
  shows "0 < a" and "a \<le> 16" and "a dvd 4096"
  using assms by (auto simp: natural_alignments_def)

lemma natural_alignments_max:
  "a \<in> natural_alignments \<Longrightarrow> b \<in> natural_alignments \<Longrightarrow> max a b \<in> natural_alignments"
  by (auto simp: natural_alignments_def max_def)


lemma padded_chain_bound:
  fixes r :: nat
  assumes "r \<le> 16 * si + ap - 1" and "p \<le> r + 16 * sp + ai - 1" and "t \<le> p + si + A - 1"
    and "si \<le> 16" and "sp \<le> 16" and "ai \<le> 16" and "ap \<le> 16" and "A \<le> 16"
  shows "t \<le> 4096"
  using assms by linarith

lemma header_fits:
  assumes ai: "scalar_align abi int_t \<in> natural_alignments"
    and ap: "scalar_align abi ptr_t \<in> natural_alignments"
    and si: "scalar_size abi int_t \<le> 16"
    and sp: "scalar_size abi ptr_t \<le> 16"
  shows "round_up
           (round_up (round_up (16 * scalar_size abi int_t) (scalar_align abi ptr_t)
                        + 16 * scalar_size abi ptr_t) (scalar_align abi int_t)
              + scalar_size abi int_t)
           (max (scalar_align abi ptr_t) (max (scalar_align abi int_t) (Suc 0))) \<le> 4096"
proof -
  note fi = natural_alignment_facts [OF ai] and fp = natural_alignment_facts [OF ap]
  have A: "max (scalar_align abi ptr_t) (max (scalar_align abi int_t) (Suc 0)) \<in> natural_alignments"
    by (intro natural_alignments_max ai ap) (simp add: natural_alignments_def)
  note fA = natural_alignment_facts [OF A]
  show ?thesis
    by (rule padded_chain_bound [OF round_up_le [OF fp(1)] round_up_le [OF fi(1)]
          round_up_le [OF fA(1)] si sp fi(2) fp(2) fA(2)])
qed


lemma round_up_ge: "0 < a \<Longrightarrow> n \<le> round_up n a"
proof -
  assume a: "0 < a"
  have m: "(n + a - 1) mod a < a"
    using a by simp
  have "round_up n a = (n + a - 1) - (n + a - 1) mod a"
    by (simp only: round_up_def minus_mod_eq_div_mult)
  with m show ?thesis by linarith
qed

lemma members_ncclMem_decl:
  assumes c: "scalar_size abi char_t = 1" "scalar_align abi char_t = 1"
    and ai: "scalar_align abi int_t \<in> natural_alignments"
    and ap: "scalar_align abi ptr_t \<in> natural_alignments"
    and si: "scalar_size abi int_t \<le> 16"
    and sp: "scalar_size abi ptr_t \<le> 16"
  shows "members abi ncclMem_decl =
    [(''flags'', 0, CArray (Scalar int_t) 16),
     (''recvPtrs'', round_up (16 * scalar_size abi int_t) (scalar_align abi ptr_t),
        CArray (Scalar ptr_t) 16),
     (''opCounter'',
        round_up (round_up (16 * scalar_size abi int_t) (scalar_align abi ptr_t)
                    + 16 * scalar_size abi ptr_t) (scalar_align abi int_t),
        Scalar int_t),
     (''pad'', 0, CArray (Scalar char_t) 4096),
     (''buff'', 4096, CArray (Scalar char_t) 4096)]"
proof -
  have A: "max (scalar_align abi ptr_t) (max (scalar_align abi int_t) (Suc 0)) \<in> natural_alignments"
    by (intro natural_alignments_max ai ap) (simp add: natural_alignments_def)
  note fA = natural_alignment_facts [OF A]
  note h = header_fits [OF ai ap si sp]
  have u: "round_up (max (round_up
           (round_up (round_up (16 * scalar_size abi int_t) (scalar_align abi ptr_t)
                        + 16 * scalar_size abi ptr_t) (scalar_align abi int_t)
              + scalar_size abi int_t)
           (max (scalar_align abi ptr_t) (max (scalar_align abi int_t) (Suc 0)))) 4096)
          (max (scalar_align abi ptr_t) (max (scalar_align abi int_t) (Suc 0))) = 4096"
    using h by (simp only: max_absorb2 round_up_dvd [OF fA(1) fA(3)])
  show ?thesis
    using c
    by (simp add: ncclMem_decl_def field_offsets_def MAXFLAGS_def NCCL_MEM_PAD_ALIGN_def
          round_up_1 round_up_0 u)
qed


lemma padded_prefix_bounds:
  fixes r :: nat
  assumes "r \<le> 16 * si + ap - 1" and "p \<le> r + 16 * sp + ai - 1"
    and "si \<le> 16" and "sp \<le> 16" and "ai \<le> 16" and "ap \<le> 16"
  shows "16 * si \<le> 4096" and "r + 16 * sp \<le> 4096" and "p + si \<le> 4096"
  using assms by linarith+

text \<open>
  C5. For every ABI whose char has size and alignment 1 and whose int and pointer types
  are at most 16 bytes long with a power-of-two alignment of at most 16, the member buff
  of ncclMem starts exactly NCCL_MEM_PAD_ALIGN = 4096 bytes from the start of the block,
  whatever padding the compiler puts between the header members, and the header members
  flags, recvPtrs and opCounter all end within the first 4096 bytes.
\<close>

theorem buff_offset_is_pad_align:
  assumes c: "scalar_size abi char_t = 1" "scalar_align abi char_t = 1"
    and ai: "scalar_align abi int_t \<in> natural_alignments"
    and ap: "scalar_align abi ptr_t \<in> natural_alignments"
    and si: "scalar_size abi int_t \<le> 16"
    and sp: "scalar_size abi ptr_t \<le> 16"
  shows "offsetof abi ncclMem_decl ''buff'' = Some NCCL_MEM_PAD_ALIGN
       \<and> NCCL_MEM_PAD_ALIGN = 4096
       \<and> within_pad abi ''flags'' \<and> within_pad abi ''recvPtrs'' \<and> within_pad abi ''opCounter''"
proof -
  note m = members_ncclMem_decl [OF c ai ap si sp]
  note fi = natural_alignment_facts [OF ai] and fp = natural_alignment_facts [OF ap]
  note b = padded_prefix_bounds [OF round_up_le [OF fp(1)] round_up_le [OF fi(1)] si sp fi(2) fp(2)]
  have buff: "offsetof abi ncclMem_decl ''buff'' = Some NCCL_MEM_PAD_ALIGN"
    by (simp add: offsetof_def m NCCL_MEM_PAD_ALIGN_def)
  have flags: "within_pad abi ''flags''"
    using b(1) by (simp add: within_pad_def member_end_def m NCCL_MEM_PAD_ALIGN_def)
  have recv: "within_pad abi ''recvPtrs''"
    using b(2) by (simp add: within_pad_def member_end_def m NCCL_MEM_PAD_ALIGN_def)
  have opc: "within_pad abi ''opCounter''"
    using b(3) by (simp add: within_pad_def member_end_def m NCCL_MEM_PAD_ALIGN_def)
  from buff flags recv opc show ?thesis
    by (simp add: NCCL_MEM_PAD_ALIGN_def)
qed

theorem buff_offset_is_pad_align_witness:
  "offsetof lp64 ncclMem_decl ''buff'' = Some 4096
   \<and> within_pad lp64 ''flags'' \<and> within_pad lp64 ''recvPtrs'' \<and> within_pad lp64 ''opCounter''"
proof -
  have c: "scalar_size lp64 char_t = 1" "scalar_align lp64 char_t = 1"
    by (simp_all add: lp64_def)
  have a: "scalar_align lp64 int_t \<in> natural_alignments"
    "scalar_align lp64 ptr_t \<in> natural_alignments"
    by (simp_all add: lp64_def natural_alignments_def)
  have s: "scalar_size lp64 int_t \<le> 16" "scalar_size lp64 ptr_t \<le> 16"
    by (simp_all add: lp64_def)
  from buff_offset_is_pad_align [OF c a s] show ?thesis
    by (simp add: NCCL_MEM_PAD_ALIGN_def)
qed

section \<open>Capacities\<close>

lemma DEFAULT_BUFFER_SIZE_BYTES_value:
  "unat DEFAULT_BUFFER_SIZE_BYTES = 2 ^ 25" and "unat DEFAULT_BUFFER_SIZE_BYTES = 33554432"
  by (simp_all add: DEFAULT_BUFFER_SIZE_BYTES_def)

text \<open>
  C7. MAXRINGS is 8 and every per-ring table of a communicator has exactly MAXRINGS
  entries, so a ring index has a slot exactly when it is below 8; MAXFLAGS is 16 and a
  synchronization block has exactly MAXFLAGS flags and MAXFLAGS published pointers, one of
  each per step slot.
\<close>

theorem ring_and_flag_capacity:
  "MAXRINGS = 8 \<and> MAXFLAGS = 16
   \<and> array_length ncclMem_decl ''flags'' = Some MAXFLAGS
   \<and> array_length ncclMem_decl ''recvPtrs'' = Some MAXFLAGS
   \<and> map (array_length ncclComm_decl)
        [''ringIdx'', ''userFromRing'', ''devUserFromRing'', ''ringFromUser'', ''ncclFromRing'']
       = replicate 5 (Some MAXRINGS)
   \<and> has_slot ncclComm_decl ''ringIdx'' r = (r < 8)
   \<and> has_slot ncclMem_decl ''flags'' k = (k < 16)
   \<and> has_slot ncclMem_decl ''recvPtrs'' k = (k < 16)"
  by (simp add: has_slot_def array_length_def ncclMem_decl_def ncclComm_decl_def MAXRINGS_def
        MAXFLAGS_def numeral_eq_Suc)

section \<open>Diagnostics\<close>

lemma DebugLevel_UNIV: "(UNIV :: DebugLevel set) = {NONE, WARN, INFO, ABORT}"
proof
  show "(UNIV :: DebugLevel set) \<subseteq> {NONE, WARN, INFO, ABORT}"
  proof
    fix l :: DebugLevel
    show "l \<in> {NONE, WARN, INFO, ABORT}" by (cases l) simp_all
  qed
qed simp

lemma level_ge_WARN: "level_ge l WARN = (l \<noteq> NONE)"
  by (cases l) (simp_all add: level_ge_def)

lemma level_ge_INFO: "level_ge l INFO = (l = INFO \<or> l = ABORT)"
  by (cases l) (simp_all add: level_ge_def)

lemma level_ge_ABORT: "level_ge l ABORT = (l = ABORT)"
  by (cases l) (simp_all add: level_ge_def)

text \<open>
  C9. The verbosity level takes exactly the four values NONE = 0, WARN = 1, INFO = 2,
  ABORT = 3, in this order. A warning is emitted if and only if the level is at least
  WARN, and then the macro prints the prefix with file and line, the message and a newline,
  flushes stdout and only then, if and only if the level is ABORT, terminates the
  process; an info diagnostic is emitted if and only if the level is at least INFO, and then
  the macro prints the prefix, the message and a newline and flushes stdout. Below its
  level a macro makes no call at all.
\<close>

theorem debug_level_controls_diagnostics:
  "(UNIV :: DebugLevel set) = {NONE, WARN, INFO, ABORT}
   \<and> map DebugLevel_value [NONE, WARN, INFO, ABORT] = [0, 1, 2, 3]
   \<and> emitted (WARN_macro lvl file line fmt args) fmt args
       = (DebugLevel_value lvl \<ge> DebugLevel_value WARN)
   \<and> emitted (INFO_macro lvl fmt args) fmt args
       = (DebugLevel_value lvl \<ge> DebugLevel_value INFO)
   \<and> terminates_process (WARN_macro lvl file line fmt args) = (lvl = ABORT)
   \<and> printed (WARN_macro lvl file line fmt args)
       = (if DebugLevel_value lvl \<ge> DebugLevel_value WARN
          then [(''WARN %s:%d '', [Str file, Num line]), (fmt, args), ([CHR 0x0A], [])]
          else [])
   \<and> printed (INFO_macro lvl fmt args)
       = (if DebugLevel_value lvl \<ge> DebugLevel_value INFO
          then [(''INFO '', []), (fmt, args), ([CHR 0x0A], [])]
          else [])
   \<and> WARN_macro lvl file line fmt args
       = (if DebugLevel_value lvl \<ge> DebugLevel_value WARN
          then [Printf ''WARN %s:%d '' [Str file, Num line], Printf fmt args,
                Printf [CHR 0x0A] [], Fflush_stdout]
               @ (if lvl = ABORT then [Abort] else [])
          else [])
   \<and> INFO_macro lvl fmt args
       = (if DebugLevel_value lvl \<ge> DebugLevel_value INFO
          then [Printf ''INFO '' [], Printf fmt args, Printf [CHR 0x0A] [], Fflush_stdout]
          else [])"
proof -
  have we: "emitted (WARN_macro lvl file line fmt args) fmt args
       = (DebugLevel_value lvl \<ge> DebugLevel_value WARN)"
    by (cases lvl) (simp_all add: emitted_def WARN_macro_def level_ge_def)
  have ie: "emitted (INFO_macro lvl fmt args) fmt args
       = (DebugLevel_value lvl \<ge> DebugLevel_value INFO)"
    by (cases lvl) (simp_all add: emitted_def INFO_macro_def level_ge_def)
  have a: "terminates_process (WARN_macro lvl file line fmt args) = (lvl = ABORT)"
    by (cases lvl) (simp_all add: terminates_process_def WARN_macro_def level_ge_def)
  have wp: "printed (WARN_macro lvl file line fmt args)
       = (if DebugLevel_value lvl \<ge> DebugLevel_value WARN
          then [(''WARN %s:%d '', [Str file, Num line]), (fmt, args), ([CHR 0x0A], [])]
          else [])"
    by (cases lvl) (simp_all add: WARN_macro_def level_ge_def)
  have ip: "printed (INFO_macro lvl fmt args)
       = (if DebugLevel_value lvl \<ge> DebugLevel_value INFO
          then [(''INFO '', []), (fmt, args), ([CHR 0x0A], [])]
          else [])"
    by (cases lvl) (simp_all add: INFO_macro_def level_ge_def)
  have wc: "WARN_macro lvl file line fmt args
       = (if DebugLevel_value lvl \<ge> DebugLevel_value WARN
          then [Printf ''WARN %s:%d '' [Str file, Num line], Printf fmt args,
                Printf [CHR 0x0A] [], Fflush_stdout]
               @ (if lvl = ABORT then [Abort] else [])
          else [])"
    by (cases lvl) (simp_all add: WARN_macro_def level_ge_def)
  have ic: "INFO_macro lvl fmt args
       = (if DebugLevel_value lvl \<ge> DebugLevel_value INFO
          then [Printf ''INFO '' [], Printf fmt args, Printf [CHR 0x0A] [], Fflush_stdout]
          else [])"
    by (cases lvl) (simp_all add: INFO_macro_def level_ge_def)
  have v: "map DebugLevel_value [NONE, WARN, INFO, ABORT] = [0, 1, 2, 3]"
    by simp
  from DebugLevel_UNIV v we ie a wp ip wc ic show ?thesis
    by (intro conjI)
qed

text \<open>
  C10. At every debug level an INFO diagnostic makes no call of abort, so the statements
  after it run; a WARN diagnostic ends the process exactly when the level is at least
  ABORT; and at level ABORT an INFO message is printed and execution continues.
\<close>

theorem info_never_aborts:
  "\<not> terminates_process (INFO_macro lvl fmt args)
   \<and> followed_by (INFO_macro lvl fmt args) rest = INFO_macro lvl fmt args @ rest
   \<and> terminates_process (WARN_macro lvl file line wfmt wargs)
       = (DebugLevel_value lvl \<ge> DebugLevel_value ABORT)
   \<and> followed_by (INFO_macro ABORT fmt args) rest
       = [Printf ''INFO '' [], Printf fmt args, Printf [CHR 0x0A] [], Fflush_stdout] @ rest"
proof -
  have n: "\<not> terminates_process (INFO_macro lvl fmt args)" for lvl
    by (simp add: terminates_process_def INFO_macro_def)
  have w: "terminates_process (WARN_macro lvl file line wfmt wargs)
       = (DebugLevel_value lvl \<ge> DebugLevel_value ABORT)"
    by (cases lvl) (simp_all add: terminates_process_def WARN_macro_def level_ge_def)
  have p: "INFO_macro ABORT fmt args
       = [Printf ''INFO '' [], Printf fmt args, Printf [CHR 0x0A] [], Fflush_stdout]"
    by (simp add: INFO_macro_def level_ge_def)
  have f: "followed_by (INFO_macro l fmt args) rest = INFO_macro l fmt args @ rest" for l
    using n [of l] by (simp add: followed_by_def)
  from n [of lvl] f [of lvl] w f [of ABORT] p show ?thesis by simp
qed

section \<open>Ring index tables are inverse permutations\<close>

lemma fill_inverse_length:
  "fill_inverse n us i tab = Inr tab' \<Longrightarrow> length tab' = length tab"
  by (induction us arbitrary: i tab) (auto split: if_splits)

lemma fill_inverse_keeps:
  "fill_inverse n us i tab = Inr tab' \<Longrightarrow> k < length tab \<Longrightarrow> tab ! k \<noteq> - 1 \<Longrightarrow> tab' ! k = tab ! k"
proof (induction us arbitrary: i tab)
  case Nil
  then show ?case by simp
next
  case (Cons u us)
  from Cons.prems(1) have r: "0 \<le> u" "u < int n" and f: "tab ! nat u = - 1"
    and rec: "fill_inverse n us (Suc i) (tab[nat u := int i]) = Inr tab'"
    by (auto split: if_splits)
  from f Cons.prems(3) have "k \<noteq> nat u" by auto
  with Cons.IH [OF rec] Cons.prems(2,3) show ?case by simp
qed

lemma fill_inverse_sound:
  "fill_inverse n us i tab = Inr tab' \<Longrightarrow> length tab = n \<Longrightarrow> k < length us \<Longrightarrow>
     0 \<le> us ! k \<and> us ! k < int n \<and> tab ! nat (us ! k) = - 1 \<and> tab' ! nat (us ! k) = int (i + k)"
proof (induction us arbitrary: i tab k)
  case Nil
  then show ?case by simp
next
  case (Cons u us)
  from Cons.prems(1) have r: "0 \<le> u" "u < int n" and f: "tab ! nat u = - 1"
    and rec: "fill_inverse n us (Suc i) (tab[nat u := int i]) = Inr tab'"
    by (auto split: if_splits)
  have len: "length (tab[nat u := int i]) = n" using Cons.prems(2) by simp
  have un: "nat u < length (tab[nat u := int i])" using r len by simp
  show ?case
  proof (cases k)
    case 0
    have "(tab[nat u := int i]) ! nat u = int i" using un by simp
    then have "tab' ! nat u = int i"
      using fill_inverse_keeps [OF rec un] by simp
    with r f 0 show ?thesis by simp
  next
    case (Suc j)
    with Cons.prems(3) have j: "j < length us" by simp
    from Cons.IH [OF rec len j]
    have a: "0 \<le> us ! j" "us ! j < int n" "(tab[nat u := int i]) ! nat (us ! j) = - 1"
      "tab' ! nat (us ! j) = int (Suc i + j)" by simp_all
    have "nat (us ! j) \<noteq> nat u"
    proof
      assume "nat (us ! j) = nat u"
      with a(3) un show False by simp
    qed
    with a(3) have "tab ! nat (us ! j) = - 1" by simp
    with a Suc show ?thesis by simp
  qed
qed

lemma fill_inverse_distinct:
  "fill_inverse n us i tab = Inr tab' \<Longrightarrow> length tab = n \<Longrightarrow> distinct us"
proof (induction us arbitrary: i tab)
  case Nil
  then show ?case by simp
next
  case (Cons u us)
  from Cons.prems(1) have r: "0 \<le> u" "u < int n" and f: "tab ! nat u = - 1"
    and rec: "fill_inverse n us (Suc i) (tab[nat u := int i]) = Inr tab'"
    by (auto split: if_splits)
  have len: "length (tab[nat u := int i]) = n" using Cons.prems(2) by simp
  have "u \<notin> set us"
  proof
    assume "u \<in> set us"
    then obtain k where k: "k < length us" "us ! k = u" by (auto simp: in_set_conv_nth)
    from fill_inverse_sound [OF rec len k(1)] k(2)
    have "(tab[nat u := int i]) ! nat u = - 1" by simp
    with r len show False by simp
  qed
  with Cons.IH [OF rec len] show ?case by simp
qed


lemma invert_table_forward:
  assumes ok: "invert_table n us = Inr tab'" and k: "k < length us"
  shows "0 \<le> us ! k" and "us ! k < int n" and "tab' ! nat (us ! k) = int k"
  using fill_inverse_sound [OF ok [unfolded invert_table_def] _ k] by simp_all

lemma invert_table_distinct: "invert_table n us = Inr tab' \<Longrightarrow> distinct us"
  unfolding invert_table_def by (erule fill_inverse_distinct) simp

lemma invert_table_length: "invert_table n us = Inr tab' \<Longrightarrow> length tab' = n"
  unfolding invert_table_def by (drule fill_inverse_length) simp

lemma permutation_onto:
  assumes len: "length us = n" and d: "distinct us"
    and r: "\<And>k. k < n \<Longrightarrow> 0 \<le> us ! k \<and> us ! k < int n"
    and u: "u < n"
  shows "\<exists>k<n. us ! k = int u"
proof -
  have inj: "inj_on nat (set us)"
  proof (rule inj_onI)
    fix x y
    assume "x \<in> set us" "y \<in> set us" and e: "nat x = nat y"
    then have "0 \<le> x" "0 \<le> y" using r len by (auto simp: in_set_conv_nth)
    with e show "x = y" by simp
  qed
  have sub: "nat ` set us \<subseteq> {..<n}"
  proof
    fix v
    assume "v \<in> nat ` set us"
    then obtain k where k: "k < length us" "v = nat (us ! k)"
      by (auto simp: in_set_conv_nth)
    with r [of k] len show "v \<in> {..<n}" by (simp add: nat_less_iff)
  qed
  have "card (nat ` set us) = n"
    using inj d len by (simp add: card_image distinct_card)
  with sub have "nat ` set us = {..<n}"
    by (intro card_subset_eq) simp_all
  with u have "u \<in> nat ` set us" by simp
  then obtain x where x: "x \<in> set us" "nat x = u" by blast
  then obtain k where "k < length us" "us ! k = x" by (auto simp: in_set_conv_nth)
  with x r [of k] len show ?thesis by (intro exI [of _ k]) auto
qed

lemma invert_table_backward:
  assumes ok: "invert_table n us = Inr tab'" and len: "length us = n" and u: "u < n"
  shows "0 \<le> tab' ! u" and "tab' ! u < int n" and "us ! nat (tab' ! u) = int u"
proof -
  have r: "\<And>k. k < n \<Longrightarrow> 0 \<le> us ! k \<and> us ! k < int n"
    using invert_table_forward [OF ok] len by simp
  from permutation_onto [OF len invert_table_distinct [OF ok] r u]
  obtain k where k: "k < n" "us ! k = int u" by blast
  from invert_table_forward(3) [OF ok, of k] k len have "tab' ! u = int k" by simp
  with k show "0 \<le> tab' ! u" and "tab' ! u < int n" and "us ! nat (tab' ! u) = int u"
    by simp_all
qed

lemma invert_table_is_permutation:
  assumes ok: "invert_table n us = Inr tab'" and len: "length us = n"
  shows "is_permutation n us" and "is_permutation n tab'"
proof -
  have "\<forall>k<length us. 0 \<le> us ! k \<and> us ! k < int n"
    using invert_table_forward(1,2) [OF ok] by blast
  with invert_table_distinct [OF ok] len show "is_permutation n us"
    by (simp add: is_permutation_def list_all_length)
  have l: "length tab' = n" by (rule invert_table_length [OF ok])
  have "distinct tab'"
    unfolding distinct_conv_nth
  proof (intro allI impI)
    fix i j
    assume i: "i < length tab'" and j: "j < length tab'" and ne: "i \<noteq> j"
    show "tab' ! i \<noteq> tab' ! j"
    proof
      assume e: "tab' ! i = tab' ! j"
      have bi: "us ! nat (tab' ! i) = int i"
        by (rule invert_table_backward(3) [OF ok len]) (use i l in simp)
      have bj: "us ! nat (tab' ! j) = int j"
        by (rule invert_table_backward(3) [OF ok len]) (use j l in simp)
      have "int i = us ! nat (tab' ! i)" by (simp only: bi)
      also have "\<dots> = us ! nat (tab' ! j)" by (simp only: e)
      also have "\<dots> = int j" by (simp only: bj)
      finally have "int i = int j" .
      with ne show False by simp
    qed
  qed
  moreover have "\<forall>u<length tab'. 0 \<le> tab' ! u \<and> tab' ! u < int n"
    using invert_table_backward(1,2) [OF ok len] l by simp
  ultimately show "is_permutation n tab'"
    using l by (simp add: is_permutation_def list_all_length)
qed

lemma fill_inverse_complete:
  "distinct us \<Longrightarrow> length tab = n \<Longrightarrow>
   (\<And>u. u \<in> set us \<Longrightarrow> 0 \<le> u \<and> u < int n \<and> tab ! nat u = - 1) \<Longrightarrow>
   \<exists>tab'. fill_inverse n us i tab = Inr tab'"
proof (induction us arbitrary: i tab)
  case Nil
  then show ?case by simp
next
  case (Cons u us)
  have u: "0 \<le> u" "u < int n" "tab ! nat u = - 1"
    using Cons.prems(3) [of u] by simp_all
  have "\<exists>tab'. fill_inverse n us (Suc i) (tab[nat u := int i]) = Inr tab'"
  proof (rule Cons.IH)
    show "distinct us" using Cons.prems(1) by simp
    show "length (tab[nat u := int i]) = n" using Cons.prems(2) by simp
    fix v
    assume v: "v \<in> set us"
    with Cons.prems(1) have "v \<noteq> u" by auto
    moreover from v Cons.prems(3) [of v] have "0 \<le> v" "v < int n" "tab ! nat v = - 1"
      by simp_all
    ultimately show "0 \<le> v \<and> v < int n \<and> tab[nat u := int i] ! nat v = - 1"
      using u by (simp add: nth_list_update)
  qed
  with u show ?case by simp
qed

lemma invert_table_complete:
  assumes "is_permutation n us"
  shows "\<exists>tab'. invert_table n us = Inr tab'"
  unfolding invert_table_def
proof (rule fill_inverse_complete)
  show "distinct us" using assms by (simp add: is_permutation_def)
  show "length (replicate n (- 1 :: int)) = n" by simp
  fix u
  assume "u \<in> set us"
  with assms show "0 \<le> u \<and> u < int n \<and> replicate n (- 1) ! nat u = - 1"
    by (auto simp: is_permutation_def list_all_iff)
qed

lemma invert_table_rejects:
  assumes "\<not> distinct us \<or> (\<exists>x\<in>set us. x < 0 \<or> int n \<le> x)"
  shows "\<exists>e. invert_table n us = Inl e"
proof (cases "invert_table n us")
  case (Inl e)
  then show ?thesis by blast
next
  case (Inr tab')
  have "distinct us" by (rule invert_table_distinct [OF Inr])
  moreover have "\<forall>x\<in>set us. 0 \<le> x \<and> x < int n"
    using invert_table_forward [OF Inr] by (auto simp: in_set_conv_nth)
  ultimately show ?thesis using assms by force
qed


lemma build_ring_Inr:
  assumes ok: "build_ring n ranks order = Inr (users, tab')"
  shows "length order = n" and "list_all (\<lambda>d. 0 \<le> d \<and> d < int n) order"
    and "users = map (\<lambda>d. ranks ! nat d) order" and "invert_table n users = Inr tab'"
proof -
  from ok show len: "length order = n"
    by (simp add: build_ring_def split: if_splits)
  from ok have "\<not> list_ex (\<lambda>d. d < 0 \<or> int n \<le> d) order"
    by (simp add: build_ring_def split: if_splits)
  then show "list_all (\<lambda>d. 0 \<le> d \<and> d < int n) order"
    by (auto simp: list_all_iff list_ex_iff)
  from ok show "users = map (\<lambda>d. ranks ! nat d) order" and "invert_table n users = Inr tab'"
    by (auto simp: build_ring_def Let_def split: if_splits sum.splits)
qed

lemma build_ring_permutations:
  assumes ok: "build_ring n ranks order = Inr (users, tab')"
  shows "is_permutation n users" and "is_permutation n tab'" and "is_permutation n order"
proof -
  note b = build_ring_Inr [OF ok]
  have lu: "length users = n" using b(1,3) by simp
  show u: "is_permutation n users" and "is_permutation n tab'"
    by (rule invert_table_is_permutation [OF b(4) lu])+
  from u b(3) have "distinct (map (\<lambda>d. ranks ! nat d) order)"
    by (simp add: is_permutation_def)
  then have "distinct order" by (simp add: distinct_map)
  with b(1,2) show "is_permutation n order"
    by (simp add: is_permutation_def)
qed

lemma build_ring_complete:
  assumes r: "is_permutation n ranks" and o: "is_permutation n order"
  shows "\<exists>res. build_ring n ranks order = Inr res"
proof -
  let ?f = "\<lambda>d. ranks ! nat d"
  have lr: "length ranks = n" and dr: "distinct ranks"
    and rr: "\<forall>x\<in>set ranks. 0 \<le> x \<and> x < int n"
    using r by (simp_all add: is_permutation_def list_all_iff)
  have lo: "length order = n" and d: "distinct order"
    and ro: "\<forall>x\<in>set order. 0 \<le> x \<and> x < int n"
    using o by (simp_all add: is_permutation_def list_all_iff)
  have inj: "inj_on ?f (set order)"
  proof (rule inj_onI)
    fix x y
    assume x: "x \<in> set order" and y: "y \<in> set order" and e: "ranks ! nat x = ranks ! nat y"
    from x y ro lr have "nat x < length ranks" "nat y < length ranks" by auto
    with e dr have "nat x = nat y" by (simp add: nth_eq_iff_index_eq)
    moreover from x y ro have "0 \<le> x" "0 \<le> y" by auto
    ultimately show "x = y" by simp
  qed
  have "\<forall>x\<in>set order. 0 \<le> ?f x \<and> ?f x < int n"
  proof
    fix x
    assume "x \<in> set order"
    with ro lr have "nat x < length ranks" by auto
    then have "ranks ! nat x \<in> set ranks" by simp
    with rr show "0 \<le> ?f x \<and> ?f x < int n" by blast
  qed
  with d inj lo have "is_permutation n (map ?f order)"
    by (simp add: is_permutation_def distinct_map list_all_iff)
  from invert_table_complete [OF this]
  obtain tab' where "invert_table n (map ?f order) = Inr tab'" by blast
  moreover have "\<not> list_ex (\<lambda>d. d < 0 \<or> int n \<le> d) order"
    using ro by (auto simp: list_ex_iff)
  ultimately show ?thesis
    using lo by (simp add: build_ring_def)
qed

lemma build_rings_nth:
  "build_rings n ranks orders = Inr t \<Longrightarrow>
     nDev t = n \<and> nRings t = length orders \<and>
     length (userFromRing t) = length orders \<and>
     length (devUserFromRing t) = length orders \<and>
     length (ringFromUser t) = length orders \<and>
     length (ncclFromRing t) = length orders \<and>
     (\<forall>r<length orders.
        build_ring n ranks (orders ! r) = Inr (userFromRing t ! r, ringFromUser t ! r) \<and>
        devUserFromRing t ! r = userFromRing t ! r \<and>
        ncclFromRing t ! r = orders ! r)"
proof (induction orders arbitrary: t)
  case Nil
  then show ?case by auto
next
  case (Cons order orders)
  from Cons.prems obtain users tab' t' where
    ring: "build_ring n ranks order = Inr (users, tab')" and
    rest: "build_rings n ranks orders = Inr t'" and
    t: "t = \<lparr>nDev = n, nRings = Suc (nRings t'),
             userFromRing = users # userFromRing t',
             devUserFromRing = users # devUserFromRing t',
             ringFromUser = tab' # ringFromUser t',
             ncclFromRing = order # ncclFromRing t'\<rparr>"
    by (auto split: sum.splits)
  note ih = Cons.IH [OF rest]
  show ?case
  proof (intro conjI allI impI)
    fix r
    assume r: "r < length (order # orders)"
    show "build_ring n ranks ((order # orders) ! r) = Inr (userFromRing t ! r, ringFromUser t ! r)"
      using r ih ring t by (cases r) simp_all
    show "devUserFromRing t ! r = userFromRing t ! r"
      using r ih t by (cases r) simp_all
    show "ncclFromRing t ! r = (order # orders) ! r"
      using r ih t by (cases r) simp_all
  qed (use ih t in simp_all)
qed

lemma build_rings_complete:
  "(\<And>order. order \<in> set orders \<Longrightarrow> \<exists>res. build_ring n ranks order = Inr res) \<Longrightarrow>
   \<exists>t. build_rings n ranks orders = Inr t"
proof (induction orders)
  case Nil
  then show ?case by simp
next
  case (Cons order orders)
  from Cons.prems [of order] obtain users tab' where "build_ring n ranks order = Inr (users, tab')"
    by auto
  moreover from Cons.IH Cons.prems obtain t' where "build_rings n ranks orders = Inr t'"
    by auto
  ultimately show ?case by simp
qed

lemma build_tables_Inr:
  assumes "build_tables n ranks orders = Inr t"
  shows "length orders \<le> MAXRINGS" and "is_permutation n ranks"
    and "build_rings n ranks orders = Inr t"
proof -
  from assms show "length orders \<le> MAXRINGS"
    by (simp add: build_tables_def split: if_splits)
  from assms obtain tab' where "length ranks = n" "invert_table n ranks = Inr tab'"
    by (auto simp: build_tables_def split: if_splits sum.splits)
  then show "is_permutation n ranks"
    using invert_table_is_permutation(1) by blast
  from assms show "build_rings n ranks orders = Inr t"
    by (auto simp: build_tables_def split: if_splits sum.splits)
qed


lemma permutation_bij_betw:
  assumes p: "is_permutation n tab"
  shows "bij_betw (\<lambda>i. nat (tab ! i)) {..<n} {..<n}"
proof -
  have len: "length tab = n" and d: "distinct tab"
    and r: "\<forall>i<n. 0 \<le> tab ! i \<and> tab ! i < int n"
    using p by (simp_all add: is_permutation_def list_all_length)
  have inj: "inj_on (\<lambda>i. nat (tab ! i)) {..<n}"
  proof (rule inj_onI)
    fix i j
    assume i: "i \<in> {..<n}" and j: "j \<in> {..<n}" and e: "nat (tab ! i) = nat (tab ! j)"
    from i j r have "0 \<le> tab ! i" "0 \<le> tab ! j" by simp_all
    with e have "tab ! i = tab ! j" by simp
    with d i j len show "i = j" by (simp add: nth_eq_iff_index_eq)
  qed
  have sub: "(\<lambda>i. nat (tab ! i)) ` {..<n} \<subseteq> {..<n}"
    using r by (auto simp: nat_less_iff)
  have "card ((\<lambda>i. nat (tab ! i)) ` {..<n}) = card {..<n}"
    using inj by (rule card_image)
  with sub have "(\<lambda>i. nat (tab ! i)) ` {..<n} = {..<n}"
    by (intro card_subset_eq) simp_all
  with inj show ?thesis by (simp add: bij_betw_def)
qed

lemma build_tables_all_permutations:
  assumes ok: "build_tables n ranks orders = Inr t" and tab: "tab \<in> set (all_tables t)"
  shows "is_permutation n tab"
proof -
  note b = build_rings_nth [OF build_tables_Inr(3) [OF ok]]
  from tab b obtain r where r: "r < length orders"
    and c: "tab = userFromRing t ! r \<or> tab = devUserFromRing t ! r
            \<or> tab = ringFromUser t ! r \<or> tab = ncclFromRing t ! r"
    by (auto simp: all_tables_def in_set_conv_nth)
  from b r have ring: "build_ring n ranks (orders ! r) = Inr (userFromRing t ! r, ringFromUser t ! r)"
    and dev: "devUserFromRing t ! r = userFromRing t ! r"
    and nccl: "ncclFromRing t ! r = orders ! r"
    by simp_all
  from build_ring_permutations [OF ring] c dev nccl show ?thesis by auto
qed

lemma build_tables_example:
  "build_tables 4 [2, 0, 3, 1] [[0, 1, 2, 3], [3, 1, 0, 2]] =
     Inr \<lparr>nDev = 4, nRings = 2,
          userFromRing = [[2, 0, 3, 1], [1, 0, 2, 3]],
          devUserFromRing = [[2, 0, 3, 1], [1, 0, 2, 3]],
          ringFromUser = [[1, 3, 0, 2], [1, 0, 2, 3]],
          ncclFromRing = [[0, 1, 2, 3], [3, 1, 0, 2]]\<rparr>"
  by code_simp

text \<open>
  C1. Once the table construction has succeeded (the communicator is ready), for every
  active ring \<open>r\<close> and every index \<open>i\<close> below \<open>nDev\<close>, both tables hold values in
  \<open>[0, nDev)\<close> and \<open>ringFromUser[r][userFromRing[r][i]] = i\<close> and
  \<open>userFromRing[r][ringFromUser[r][i]] = i\<close>: the two tables are inverse permutations.
\<close>

theorem ring_tables_are_inverse:
  assumes ok: "build_tables n ranks orders = Inr t" and r: "r < nRings t" and i: "i < nDev t"
  shows "0 \<le> userFromRing t ! r ! i \<and> userFromRing t ! r ! i < int (nDev t)
       \<and> ringFromUser t ! r ! nat (userFromRing t ! r ! i) = int i
       \<and> 0 \<le> ringFromUser t ! r ! i \<and> ringFromUser t ! r ! i < int (nDev t)
       \<and> userFromRing t ! r ! nat (ringFromUser t ! r ! i) = int i"
proof -
  note b = build_rings_nth [OF build_tables_Inr(3) [OF ok]]
  from b have n: "nDev t = n" and nr: "nRings t = length orders" by simp_all
  from b r nr
  have ring: "build_ring n ranks (orders ! r) = Inr (userFromRing t ! r, ringFromUser t ! r)"
    by simp
  note q = build_ring_Inr [OF ring]
  have lu: "length (userFromRing t ! r) = n" using q(1,3) by simp
  have i': "i < length (userFromRing t ! r)" using i n lu by simp
  note f = invert_table_forward [OF q(4) i']
  have i'': "i < n" using i n by simp
  note g = invert_table_backward [OF q(4) lu i'']
  from f g n show ?thesis by simp
qed

theorem ring_tables_are_inverse_witness:
  "(case build_tables 4 [2, 0, 3, 1] [[0, 1, 2, 3], [3, 1, 0, 2]] of
      Inl e \<Rightarrow> False
    | Inr t \<Rightarrow> 1 < nRings t \<and> 2 < nDev t
        \<and> userFromRing t ! 1 ! 2 = 2
        \<and> ringFromUser t ! 1 ! nat (userFromRing t ! 1 ! 2) = 2
        \<and> userFromRing t ! 1 ! nat (ringFromUser t ! 1 ! 2) = 2)"
  using ring_tables_are_inverse [OF build_tables_example, of 1 2]
  by (simp add: build_tables_example)

text \<open>
  C2. Whenever the table construction returns tables, every table of every ring
  (\<open>userFromRing\<close>, its device copy, \<open>ringFromUser\<close> and \<open>ncclFromRing\<close>) is a bijection on
  \<open>[0, nDev)\<close>; a rank assignment with a duplicate or an out-of-range rank makes it fail
  with a configuration error; and it does return tables when the ranks and the ring orders
  are permutations and there are at most MAXRINGS rings.
\<close>

theorem table_construction_bijective_or_error:
  "(\<forall>t. build_tables n ranks orders = Inr t \<longrightarrow>
        (\<forall>tab\<in>set (all_tables t).
           length tab = n \<and> (\<forall>i<n. 0 \<le> tab ! i) \<and> bij_betw (\<lambda>i. nat (tab ! i)) {..<n} {..<n}))
   \<and> ((\<not> distinct ranks \<or> (\<exists>x\<in>set ranks. x < 0 \<or> int n \<le> x)) \<longrightarrow>
        (\<exists>e. build_tables n ranks orders = Inl e))
   \<and> (is_permutation n ranks \<and> length orders \<le> MAXRINGS
        \<and> (\<forall>order\<in>set orders. is_permutation n order) \<longrightarrow>
        (\<exists>t. build_tables n ranks orders = Inr t))"
proof -
  have sound: "\<forall>t. build_tables n ranks orders = Inr t \<longrightarrow>
        (\<forall>tab\<in>set (all_tables t).
           length tab = n \<and> (\<forall>i<n. 0 \<le> tab ! i) \<and> bij_betw (\<lambda>i. nat (tab ! i)) {..<n} {..<n})"
  proof (intro allI impI ballI)
    fix t tab
    assume ok: "build_tables n ranks orders = Inr t" and tab: "tab \<in> set (all_tables t)"
    note p = build_tables_all_permutations [OF ok tab]
    from p have "length tab = n" by (simp add: is_permutation_def)
    moreover from p have "\<forall>i<n. 0 \<le> tab ! i"
      by (simp add: is_permutation_def list_all_length)
    moreover from p have "bij_betw (\<lambda>i. nat (tab ! i)) {..<n} {..<n}"
      by (rule permutation_bij_betw)
    ultimately show "length tab = n \<and> (\<forall>i<n. 0 \<le> tab ! i)
        \<and> bij_betw (\<lambda>i. nat (tab ! i)) {..<n} {..<n}"
      by (intro conjI)
  qed
  have rejects: "(\<not> distinct ranks \<or> (\<exists>x\<in>set ranks. x < 0 \<or> int n \<le> x)) \<longrightarrow>
        (\<exists>e. build_tables n ranks orders = Inl e)"
  proof
    assume bad: "\<not> distinct ranks \<or> (\<exists>x\<in>set ranks. x < 0 \<or> int n \<le> x)"
    from invert_table_rejects [OF bad] obtain e where "invert_table n ranks = Inl e" by blast
    then show "\<exists>e. build_tables n ranks orders = Inl e"
      by (simp add: build_tables_def)
  qed
  have complete: "is_permutation n ranks \<and> length orders \<le> MAXRINGS
        \<and> (\<forall>order\<in>set orders. is_permutation n order) \<longrightarrow>
        (\<exists>t. build_tables n ranks orders = Inr t)"
  proof
    assume v: "is_permutation n ranks \<and> length orders \<le> MAXRINGS
        \<and> (\<forall>order\<in>set orders. is_permutation n order)"
    then have "\<exists>t. build_rings n ranks orders = Inr t"
      by (intro build_rings_complete build_ring_complete) simp_all
    moreover from v invert_table_complete [of n ranks]
    obtain tab' where "invert_table n ranks = Inr tab'" by blast
    ultimately show "\<exists>t. build_tables n ranks orders = Inr t"
      using v by (simp add: build_tables_def is_permutation_def)
  qed
  show ?thesis by (rule conjI [OF sound conjI [OF rejects complete]])
qed


theorem table_construction_bijective_or_error_witness:
  "(\<exists>e. build_tables 4 [2, 0, 3, 2] [[0, 1, 2, 3]] = Inl e)
   \<and> (\<exists>e. build_tables 4 [2, 0, 3, 4] [[0, 1, 2, 3]] = Inl e)
   \<and> (\<exists>t. build_tables 4 [2, 0, 3, 1] [[0, 1, 2, 3], [3, 1, 0, 2]] = Inr t)
   \<and> bij_betw (\<lambda>i. nat ([1, 3, 0, 2] ! i)) {..<4} {..<4}"
proof -
  have d: "\<exists>e. build_tables 4 [2, 0, 3, 2] [[0, 1, 2, 3]] = Inl e"
    using table_construction_bijective_or_error [of 4 "[2, 0, 3, 2]" "[[0, 1, 2, 3]]"] by simp
  have o: "\<exists>e. build_tables 4 [2, 0, 3, 4] [[0, 1, 2, 3]] = Inl e"
    using table_construction_bijective_or_error [of 4 "[2, 0, 3, 4]" "[[0, 1, 2, 3]]"] by simp
  have v: "is_permutation 4 [2, 0, 3, 1] \<and> length [[0, 1, 2, 3], [3, 1, 0, 2 :: int]] \<le> MAXRINGS
      \<and> (\<forall>order\<in>set [[0, 1, 2, 3], [3, 1, 0, 2]]. is_permutation 4 order)"
    by (simp add: is_permutation_def MAXRINGS_def)
  have s: "\<exists>t. build_tables 4 [2, 0, 3, 1] [[0, 1, 2, 3], [3, 1, 0, 2]] = Inr t"
    using table_construction_bijective_or_error [of 4 "[2, 0, 3, 1]" "[[0, 1, 2, 3], [3, 1, 0, 2]]"] v
    by blast
  have b: "bij_betw (\<lambda>i. nat ([1, 3, 0, 2] ! i)) {..<4} {..<4}"
    using table_construction_bijective_or_error [of 4 "[2, 0, 3, 1]" "[[0, 1, 2, 3], [3, 1, 0, 2]]"]
    by (simp add: build_tables_example all_tables_def)
  from d o s b show ?thesis by (intro conjI)
qed

section \<open>Epoch gating\<close>

lemma step_op_opCounter:
  "step_op x b = Some b' \<Longrightarrow>
     opCounter b' = opCounter b + (if x = CompleteCollective then 1 else 0)"
  by (cases x)
     (auto simp: publish_def publish_accesses_def tryConsume_def tryConsume_accesses_def
        completeOp_def Let_def split: if_splits)

lemma run_opCounter:
  "run ops b = Some b' \<Longrightarrow> opCounter b' = opCounter b + int (count_list ops CompleteCollective)"
proof (induction ops arbitrary: b)
  case Nil
  then show ?case by simp
next
  case (Cons x xs)
  from Cons.prems obtain b1 where s: "step_op x b = Some b1" and r: "run xs b1 = Some b'"
    by (auto split: option.splits)
  from Cons.IH [OF r] step_op_opCounter [OF s] show ?case by simp
qed

lemma run_defined:
  "opCounter b + int (count_list ops CompleteCollective) \<le> INT_MAX \<Longrightarrow>
   list_all (\<lambda>x. case x of Publish s p \<Rightarrow> s < MAXFLAGS | TryConsume e s \<Rightarrow> s < MAXFLAGS | _ \<Rightarrow> True) ops \<Longrightarrow>
   \<exists>b'. run ops b = Some b'"
proof (induction ops arbitrary: b)
  case Nil
  then show ?case by simp
next
  case (Cons x xs)
  have "\<exists>b1. step_op x b = Some b1"
    using Cons.prems by (cases x) (auto simp: publish_def tryConsume_def completeOp_def split: prod.splits)
  then obtain b1 where s: "step_op x b = Some b1" by blast
  have "opCounter b1 + int (count_list xs CompleteCollective) \<le> INT_MAX"
    using step_op_opCounter [OF s] Cons.prems(1) by (simp split: if_splits)
  with Cons.IH [of b1] Cons.prems(2) s show ?case by simp
qed

lemma tryConsume_gated:
  "tryConsume epoch step b = Some (res, tr, b') \<Longrightarrow> gated epoch False tr"
  by (auto simp: tryConsume_def tryConsume_accesses_def Let_def split: if_splits)


text \<open>
  C4. Along any history of a block, \<open>opCounter\<close> never decreases and grows by exactly one
  per completed collective operation. Every poll is gated: the consumer makes no access to
  \<open>flags[step]\<close> or \<open>recvPtrs[step]\<close> before it has read a counter of at least the epoch,
  and it consumes a pointer only when the counter has reached the epoch and the flag is
  ready. A ready flag left in a slot is rejected, and the block is left as it is, when the
  counter is below the epoch.
\<close>

theorem epoch_gating:
  "(\<forall>b'. run ops b = Some b' \<longrightarrow>
        opCounter b \<le> opCounter b'
        \<and> opCounter b' = opCounter b + int (count_list ops CompleteCollective))
   \<and> (\<forall>res tr b'. tryConsume epoch step b = Some (res, tr, b') \<longrightarrow>
        gated epoch False tr
        \<and> (\<forall>p. res = Consumed p \<longrightarrow>
              epoch \<le> opCounter b \<and> flags b step = READY \<and> p = recvPtrs b step))
   \<and> (step < MAXFLAGS \<and> flags b step = READY \<and> opCounter b < epoch \<longrightarrow>
        tryConsume epoch step b = Some (Rejected, [ReadOpCounter (opCounter b)], b))"
proof -
  have mono: "\<forall>b'. run ops b = Some b' \<longrightarrow>
        opCounter b \<le> opCounter b'
        \<and> opCounter b' = opCounter b + int (count_list ops CompleteCollective)"
    using run_opCounter [of ops b] by simp
  have gate: "\<forall>res tr b'. tryConsume epoch step b = Some (res, tr, b') \<longrightarrow>
        gated epoch False tr
        \<and> (\<forall>p. res = Consumed p \<longrightarrow>
              epoch \<le> opCounter b \<and> flags b step = READY \<and> p = recvPtrs b step)"
  proof (intro allI impI)
    fix res tr b'
    assume t: "tryConsume epoch step b = Some (res, tr, b')"
    have "\<forall>p. res = Consumed p \<longrightarrow>
              epoch \<le> opCounter b \<and> flags b step = READY \<and> p = recvPtrs b step"
      using t by (auto simp: tryConsume_def tryConsume_accesses_def Let_def split: if_splits)
    with tryConsume_gated [OF t]
    show "gated epoch False tr
        \<and> (\<forall>p. res = Consumed p \<longrightarrow>
              epoch \<le> opCounter b \<and> flags b step = READY \<and> p = recvPtrs b step)"
      by (rule conjI)
  qed
  have stale: "step < MAXFLAGS \<and> flags b step = READY \<and> opCounter b < epoch \<longrightarrow>
        tryConsume epoch step b = Some (Rejected, [ReadOpCounter (opCounter b)], b)"
    by (simp add: tryConsume_def tryConsume_accesses_def Let_def)
  show ?thesis by (rule conjI [OF mono conjI [OF gate stale]])
qed

lemma run_example:
  "map_option opCounter (run [Publish 3 4096, CompleteCollective, TryConsume 1 3] idle_block) = Some 1"
  by (simp add: idle_block_def publish_def publish_accesses_def completeOp_def tryConsume_def
        tryConsume_accesses_def MAXFLAGS_def INT_MAX_def READY_def DRAINED_def Let_def)

theorem epoch_gating_witness:
  "(case run [Publish 3 4096, CompleteCollective, TryConsume 1 3] idle_block of
      None \<Rightarrow> False
    | Some b' \<Rightarrow> opCounter idle_block \<le> opCounter b' \<and> opCounter b' = 1)
   \<and> (case tryConsume 1 3 stale_block of
        Some (Consumed p, tr, b') \<Rightarrow> p = 4096 \<and> gated 1 False tr
      | _ \<Rightarrow> False)
   \<and> tryConsume 2 3 stale_block = Some (Rejected, [ReadOpCounter 1], stale_block)"
proof -
  obtain b' where r: "run [Publish 3 4096, CompleteCollective, TryConsume 1 3] idle_block = Some b'"
    using run_example by auto
  from epoch_gating [of "[Publish 3 4096, CompleteCollective, TryConsume 1 3]" idle_block 1 3] r
  have a: "opCounter idle_block \<le> opCounter b' \<and> opCounter b' = 1"
    by (simp add: idle_block_def)
  obtain tr b2 where t: "tryConsume 1 3 stale_block = Some (Consumed 4096, tr, b2)"
    by (simp add: stale_block_def tryConsume_def tryConsume_accesses_def MAXFLAGS_def READY_def)
  from epoch_gating [of "[]" stale_block 1 3] t have g: "gated 1 False tr" by simp
  have s: "3 < MAXFLAGS \<and> flags stale_block 3 = READY \<and> opCounter stale_block < 2"
    by (simp add: stale_block_def MAXFLAGS_def)
  from epoch_gating [of "[]" stale_block 2 3] s
  have c: "tryConsume 2 3 stale_block = Some (Rejected, [ReadOpCounter 1], stale_block)"
    by (simp add: stale_block_def)
  from a r t g c show ?thesis by simp
qed

section \<open>Handshake ordering\<close>

lemma handshake_inv_initial:
  "flags b step \<noteq> READY \<Longrightarrow> handshake_inv step ptr (initial_system b (publish_accesses step ptr))"
  by (simp add: handshake_inv_def initial_system_def)

lemma producer_step_inv:
  assumes "handshake_inv step ptr s"
  shows "handshake_inv step ptr (producer_step s)"
  using assms
  by (auto simp: handshake_inv_def producer_step_def publish_accesses_def split: list.splits)

lemma consumer_step_inv:
  assumes "handshake_inv step ptr s"
  shows "handshake_inv step ptr (consumer_step epoch step s)"
proof (cases "consumer_at s")
  case AtCounter
  with assms show ?thesis
    by (auto simp: handshake_inv_def consumer_step_def Let_def)
next
  case AtFlag
  with assms show ?thesis
    by (auto simp: handshake_inv_def consumer_step_def Let_def)
next
  case AtPointer
  with assms show ?thesis
    by (auto simp: handshake_inv_def consumer_step_def Let_def publish_accesses_def)
next
  case AtReset
  with assms show ?thesis
    by (auto simp: handshake_inv_def consumer_step_def Let_def publish_accesses_def)
next
  case Finished
  with assms show ?thesis
    by (simp add: consumer_step_def)
qed

lemma interleave_inv:
  "handshake_inv step ptr s \<Longrightarrow> handshake_inv step ptr (interleave epoch step schedule s)"
  unfolding interleave_def
proof (induction schedule arbitrary: s)
  case Nil
  then show ?case by simp
next
  case (Cons a schedule)
  have "handshake_inv step ptr (system_step epoch step s a)"
    using Cons.prems by (cases a) (simp_all add: producer_step_inv consumer_step_inv)
  from Cons.IH [OF this] show ?case by simp
qed


lemma consumer_alone_polls_as_tryConsume:
  "observed (interleave epoch step
       (replicate (length (snd (tryConsume_accesses epoch step b))) Consumer)
       (initial_system b todo))
     = rev (map (Pair Consumer) (snd (tryConsume_accesses epoch step b)))
   \<and> mem (interleave epoch step
       (replicate (length (snd (tryConsume_accesses epoch step b))) Consumer)
       (initial_system b todo))
     = foldl apply_access b (snd (tryConsume_accesses epoch step b))"
  by (simp add: tryConsume_accesses_def Let_def interleave_def initial_system_def
        consumer_step_def numeral_eq_Suc)

lemma tryConsume_reads_flag_first:
  "pointer_after_ready step (recvPtrs b step)
     (rev (map (Pair Consumer) (snd (tryConsume_accesses epoch step b))))"
  by (simp add: tryConsume_accesses_def Let_def)

lemma handshake_example:
  "observed (interleave 0 3 handshake_schedule (initial_system idle_block (publish_accesses 3 4096)))
     = [(Consumer, WriteFlag 3 DRAINED), (Consumer, ReadRecvPtr 3 4096),
        (Consumer, ReadFlag 3 READY), (Consumer, ReadOpCounter 0),
        (Producer, WriteFlag 3 READY),
        (Consumer, ReadFlag 3 DRAINED), (Consumer, ReadOpCounter 0),
        (Producer, WriteRecvPtr 3 4096)]"
  by (simp add: handshake_schedule_def interleave_def initial_system_def publish_accesses_def
        producer_step_def consumer_step_def idle_block_def READY_def DRAINED_def Let_def)

lemma flag_first_producer_is_caught:
  "\<not> pointer_after_ready 3 4096
       (observed (interleave 0 3 [Producer, Consumer, Consumer, Consumer]
          (initial_system idle_block [WriteFlag 3 READY, WriteRecvPtr 3 4096])))"
  by (simp add: interleave_def initial_system_def producer_step_def consumer_step_def
        idle_block_def READY_def DRAINED_def Let_def)

text \<open>
  C3. A publish writes \<open>recvPtrs[step]\<close> first and sets \<open>flags[step]\<close> to the ready
  sentinel second: after its first access the pointer is in place and no flag has changed.
  A poll reads the flag as ready before it reads the pointer, and a consumer running alone
  makes exactly the accesses of \<open>tryConsume\<close>. In every interleaving of the accesses of a
  producer that publishes and a consumer that polls, started on a slot that is not ready,
  every read of \<open>recvPtrs[step]\<close> by the consumer comes after a read of \<open>flags[step]\<close> that
  returned the ready sentinel, and it returns the published pointer.
\<close>

theorem pointer_published_before_flag:
  "publish_accesses step ptr = [WriteRecvPtr step ptr, WriteFlag step READY]
   \<and> recvPtrs (apply_access b (hd (publish_accesses step ptr))) step = ptr
   \<and> flags (apply_access b (hd (publish_accesses step ptr))) = flags b
   \<and> pointer_after_ready step (recvPtrs b step)
        (rev (map (Pair Consumer) (snd (tryConsume_accesses epoch step b))))
   \<and> observed (interleave epoch step
        (replicate (length (snd (tryConsume_accesses epoch step b))) Consumer)
        (initial_system b todo))
      = rev (map (Pair Consumer) (snd (tryConsume_accesses epoch step b)))
   \<and> (flags b step \<noteq> READY \<longrightarrow>
        pointer_after_ready step ptr
          (observed (interleave epoch step schedule
             (initial_system b (publish_accesses step ptr)))))"
proof -
  have order: "publish_accesses step ptr = [WriteRecvPtr step ptr, WriteFlag step READY]"
    by (simp add: publish_accesses_def)
  have between: "recvPtrs (apply_access b (hd (publish_accesses step ptr))) step = ptr"
    "flags (apply_access b (hd (publish_accesses step ptr))) = flags b"
    by (simp_all add: publish_accesses_def)
  have concurrent: "flags b step \<noteq> READY \<longrightarrow>
        pointer_after_ready step ptr
          (observed (interleave epoch step schedule
             (initial_system b (publish_accesses step ptr))))"
  proof
    assume "flags b step \<noteq> READY"
    then have "handshake_inv step ptr (initial_system b (publish_accesses step ptr))"
      by (rule handshake_inv_initial)
    then have "handshake_inv step ptr
        (interleave epoch step schedule (initial_system b (publish_accesses step ptr)))"
      by (rule interleave_inv)
    then show "pointer_after_ready step ptr
          (observed (interleave epoch step schedule
             (initial_system b (publish_accesses step ptr))))"
      by (simp add: handshake_inv_def)
  qed
  from order between tryConsume_reads_flag_first [of step b epoch]
    consumer_alone_polls_as_tryConsume [of epoch step b todo, THEN conjunct1] concurrent
  show ?thesis by (intro conjI)
qed

theorem pointer_published_before_flag_witness:
  "flags idle_block 3 \<noteq> READY
   \<and> (Consumer, ReadRecvPtr 3 4096)
        \<in> set (observed (interleave 0 3 handshake_schedule
                  (initial_system idle_block (publish_accesses 3 4096))))
   \<and> pointer_after_ready 3 4096
        (observed (interleave 0 3 handshake_schedule
           (initial_system idle_block (publish_accesses 3 4096))))"
proof -
  have n: "flags idle_block 3 \<noteq> READY"
    by (simp add: idle_block_def READY_def DRAINED_def)
  from pointer_published_before_flag [of 3 4096 idle_block 0 "[]" handshake_schedule] n
  have "pointer_after_ready 3 4096
        (observed (interleave 0 3 handshake_schedule
           (initial_system idle_block (publish_accesses 3 4096))))"
    by blast
  with n show ?thesis by (simp add: handshake_example)
qed

end
